theory Spec2Isabelle
  imports Main "HOL-Library.Multiset"
begin

section \<open>The photo gallery loader of \<open>src/App.js\<close>\<close>

text \<open>
  The file holds two pieces of logic: \<open>shuffleArray\<close>, an in-place shuffle of the list of
  document ids, and \<open>fetchPhotoBatch\<close>, the asynchronous loader of the React component
  \<open>App\<close>, which reads the shuffled ids in windows of \<open>BATCH_SIZE\<close>. Everything else is
  rendering.
\<close>

subsection \<open>\<open>shuffleArray\<close> (lines 8 to 19)\<close>

text \<open>
  The destructuring assignment
  \<^verbatim>\<open>[array[currentIndex], array[randomIndex]] = [array[randomIndex], array[currentIndex]]\<close>
  first builds the right-hand side from the old contents and then stores its first element at
  \<open>currentIndex\<close> and its second at \<open>randomIndex\<close>.
\<close>

definition swap_elems :: "'a list \<Rightarrow> nat \<Rightarrow> nat \<Rightarrow> 'a list" where
  "swap_elems array currentIndex randomIndex =
     (array[currentIndex := array ! randomIndex])[randomIndex := array ! currentIndex]"

text \<open>
  \<open>Math.random\<close> is the only input of the loop besides the array. The loop evaluates
  \<^verbatim>\<open>Math.floor(Math.random() * currentIndex)\<close> once per iteration, and \<open>currentIndex\<close> is
  different in every iteration, so the draws are given as a function \<open>draw\<close>: \<open>draw n\<close> is the
  value of that expression in the iteration entered with \<open>currentIndex = n\<close>.
  \<open>Math.random()\<close> lies in \<open>[0, 1)\<close>, hence \<open>draw n < n\<close>; the theorems assume exactly that, and
  nothing is claimed for other draws (JavaScript would read \<open>undefined\<close> and grow the array,
  a list update out of range does nothing).
\<close>

function shuffle_loop :: "(nat \<Rightarrow> nat) \<Rightarrow> nat \<Rightarrow> 'a list \<Rightarrow> 'a list" where
  "shuffle_loop draw currentIndex array =
     (if currentIndex \<noteq> 0 then
        (let randomIndex = draw currentIndex;
             currentIndex' = currentIndex - 1
         in shuffle_loop draw currentIndex' (swap_elems array currentIndex' randomIndex))
      else array)"
  by pat_completeness auto
termination
  by (relation "measure (\<lambda>(draw, currentIndex, array). currentIndex)") auto

declare shuffle_loop.simps [simp del]

definition shuffleArray :: "(nat \<Rightarrow> nat) \<Rightarrow> 'a list \<Rightarrow> 'a list" where
  "shuffleArray draw array = shuffle_loop draw (length array) array"

text \<open>The contract of \<open>Math.floor(Math.random() * n)\<close> for the iterations of an array of
  \<open>len\<close> elements.\<close>

definition draws_in_range :: "(nat \<Rightarrow> nat) \<Rightarrow> nat \<Rightarrow> bool" where
  "draws_in_range draw len = (\<forall>n\<in>{1..len}. draw n < n)"

subsection \<open>The Fisher--Yates shuffle in the words of the specification\<close>

text \<open>
  ``For index \<open>i\<close> from \<open>length - 1\<close> down to \<open>1\<close>, draw \<open>j\<close> from \<open>[0, i]\<close> and swap the elements
  at \<open>i\<close> and \<open>j\<close>.'' Here \<open>pick i\<close> is the \<open>j\<close> drawn for index \<open>i\<close>. For the empty list
  \<open>length - 1\<close> is below \<open>1\<close> and the loop does not run; the truncated subtraction gives \<open>0\<close>,
  with the same effect.
\<close>

function fisher_yates_from :: "(nat \<Rightarrow> nat) \<Rightarrow> nat \<Rightarrow> 'a list \<Rightarrow> 'a list" where
  "fisher_yates_from pick i xs =
     (if 1 \<le> i then fisher_yates_from pick (i - 1) (swap_elems xs i (pick i)) else xs)"
  by pat_completeness auto
termination
  by (relation "measure (\<lambda>(pick, i, xs). i)") auto

declare fisher_yates_from.simps [simp del]

definition fisher_yates_spec :: "(nat \<Rightarrow> nat) \<Rightarrow> 'a list \<Rightarrow> 'a list" where
  "fisher_yates_spec pick xs = fisher_yates_from pick (length xs - 1) xs"

subsection \<open>Values, documents and the remote store\<close>

text \<open>
  A photo is a JavaScript object: a finite map from property names to values. The object
  literal \<^verbatim>\<open>{ id: d.id, ...d.data(), index: currentIndex + i }\<close> sets \<open>id\<close>, then copies
  every field of the document over it, then sets \<open>index\<close>: a later property wins.
\<close>

datatype jsval = Str string | Num int

type_synonym obj = "string \<rightharpoonup> jsval"

text \<open>A document snapshot as \<open>getDoc\<close> resolves it: \<open>d.id\<close> is the id that was asked
  for, \<open>d.data()\<close> the stored fields (for a document that no longer exists \<open>data()\<close> is
  \<open>undefined\<close>, and spreading \<open>undefined\<close> copies nothing, as the empty map does).\<close>

record snapshot =
  snap_id :: string
  snap_data :: obj

text \<open>The Firestore client is not part of the repository. The store is a parameter: for
  each id, \<open>None\<close> when the read rejects and the stored fields when it resolves.\<close>

type_synonym remote = "string \<Rightarrow> obj option"

definition getDoc :: "remote \<Rightarrow> string \<Rightarrow> snapshot option" where
  "getDoc r ident = map_option (\<lambda>dat. \<lparr>snap_id = ident, snap_data = dat\<rparr>) (r ident)"

text \<open>\<open>Promise.all\<close>: the results in request order when every promise resolves, a
  rejection as soon as one rejects.\<close>

fun promise_all :: "'a option list \<Rightarrow> 'a list option" where
  "promise_all [] = Some []"
| "promise_all (None # ps) = None"
| "promise_all (Some x # ps) =
     (case promise_all ps of None \<Rightarrow> None | Some xs \<Rightarrow> Some (x # xs))"

text \<open>\<open>array.slice(a, b)\<close> for \<open>0 \<le> a \<le> b\<close>.\<close>

definition slice :: "'a list \<Rightarrow> nat \<Rightarrow> nat \<Rightarrow> 'a list" where
  "slice xs a b = take (b - a) (drop a xs)"

subsection \<open>The component state and \<open>fetchPhotoBatch\<close> (lines 70 to 142)\<close>

definition BATCH_SIZE :: nat where
  "BATCH_SIZE = 12"

text \<open>The \<open>useState\<close> cells the loader touches and the \<open>useRef\<close> lock. A state setter is
  applied to the record at once; the two functional updaters (\<open>setPhotos\<close>,
  \<open>setCurrentIndex\<close>) read the value the record holds at that moment, which is what React's
  update queue computes.\<close>

record state =
  photos :: "obj list"
  shuffledPhotoIds :: "string list"
  currentIndex :: nat
  loading :: bool
  allLoaded :: bool
  loadingRef :: bool

text \<open>\<open>useCallback\<close> rebuilds \<open>fetchPhotoBatch\<close> when \<open>currentIndex\<close>,
  \<open>shuffledPhotoIds\<close> or \<open>allLoaded\<close> change: the body reads these three from the render
  that built it, and \<open>loadingRef.current\<close> from the shared ref.\<close>

record closure =
  c_currentIndex :: nat
  c_shuffledPhotoIds :: "string list"
  c_allLoaded :: bool

definition closure_of :: "state \<Rightarrow> closure" where
  "closure_of s = \<lparr>c_currentIndex = currentIndex s,
                   c_shuffledPhotoIds = shuffledPhotoIds s,
                   c_allLoaded = allLoaded s\<rparr>"

text \<open>A call suspended at \<^verbatim>\<open>await Promise.all(photoPromises)\<close>: the ids whose reads
  were issued and the \<open>currentIndex\<close> of its closure.\<close>

record pending =
  p_nextBatchIds :: "string list"
  p_currentIndex :: nat

text \<open>The \<open>finally\<close> block (lines 136 to 141).\<close>

definition finally_block :: "state \<Rightarrow> state" where
  "finally_block s = s\<lparr>loading := False, loadingRef := False\<rparr>"

text \<open>
  The call up to its only suspension point. It either returns (the guard of line 100, or the
  exhaustion branch of lines 109 to 112 followed by \<open>finally\<close>) or suspends with the reads
  issued. There is no \<open>await\<close> between the test of the lock and its assignment, so this
  function is one uninterrupted step of the event loop.
\<close>

definition fetchPhotoBatch_call :: "closure \<Rightarrow> state \<Rightarrow> state \<times> pending option" where
  "fetchPhotoBatch_call c s =
     (if loadingRef s \<or> c_allLoaded c then (s, None)
      else
        (let s1 = s\<lparr>loadingRef := True\<rparr>;
             s2 = s1\<lparr>loading := True\<rparr>;
             nextBatchIds = slice (c_shuffledPhotoIds c) (c_currentIndex c)
                              (c_currentIndex c + BATCH_SIZE)
         in if length nextBatchIds = 0 \<and> length (c_shuffledPhotoIds c) > 0
            then (finally_block (s2\<lparr>allLoaded := True\<rparr>), None)
            else (s2, Some \<lparr>p_nextBatchIds = nextBatchIds,
                            p_currentIndex = c_currentIndex c\<rparr>)))"

text \<open>Lines 119 to 123: the photo built from the \<open>i\<close>-th snapshot.\<close>

definition make_photo :: "nat \<Rightarrow> nat \<Rightarrow> snapshot \<Rightarrow> obj" where
  "make_photo cur i d =
     ([''id'' \<mapsto> Str (snap_id d)] ++ snap_data d)(''index'' \<mapsto> Num (int (cur + i)))"

definition newPhotos_of :: "nat \<Rightarrow> snapshot list \<Rightarrow> obj list" where
  "newPhotos_of cur photoDocs =
     map (\<lambda>(i, d). make_photo cur i d) (enumerate 0 photoDocs)"

text \<open>Lines 127 to 131: the updater passed to \<open>setPhotos\<close>. \<open>p.id\<close> of an object without
  that property is \<open>undefined\<close>, here \<open>None\<close>.\<close>

definition merge_photos :: "obj list \<Rightarrow> obj list \<Rightarrow> obj list" where
  "merge_photos newPhotos prevPhotos =
     (let existingIds = set (map (\<lambda>p. p ''id'') prevPhotos);
          uniqueNewPhotos = filter (\<lambda>p. p ''id'' \<notin> existingIds) newPhotos
      in prevPhotos @ uniqueNewPhotos)"

text \<open>
  The rest of the call, run when the promise of \<open>Promise.all\<close> settles. A rejection goes to
  \<open>catch\<close>, which only logs; both ways end in \<open>finally\<close>.
\<close>

definition fetchPhotoBatch_resume :: "pending \<Rightarrow> remote \<Rightarrow> state \<Rightarrow> state" where
  "fetchPhotoBatch_resume p r s =
     (case promise_all (map (getDoc r) (p_nextBatchIds p)) of
        None \<Rightarrow> finally_block s
      | Some photoDocs \<Rightarrow>
          (let newPhotos = newPhotos_of (p_currentIndex p) photoDocs;
               s1 = s\<lparr>photos := merge_photos newPhotos (photos s)\<rparr>;
               s2 = s1\<lparr>currentIndex := currentIndex s1 + BATCH_SIZE\<rparr>
           in finally_block s2))"

subsection \<open>The loader as a transition system\<close>

text \<open>
  A session is the component state together with the calls of \<open>fetchPhotoBatch\<close> that are
  suspended. Two things happen to it: the page triggers a load (the effect of line 147 or the
  scroll handler of line 156), or the reads of the oldest suspended call settle against the
  store as it is then. \<open>trigger\<close> is the call made once the component has rendered the
  current state: the closure of the callback then holds the current values of the three
  dependencies. The calls of a callback built by an earlier render, and the calls made
  before the ids are stored, are those of the second transition system further down.
\<close>

record session =
  st :: state
  inflight :: "pending list"

datatype event = Trigger | Settle remote

definition trigger :: "session \<Rightarrow> session" where
  "trigger x =
     (case fetchPhotoBatch_call (closure_of (st x)) (st x) of
        (s', None) \<Rightarrow> x\<lparr>st := s'\<rparr>
      | (s', Some p) \<Rightarrow> x\<lparr>st := s', inflight := inflight x @ [p]\<rparr>)"

definition settle :: "remote \<Rightarrow> session \<Rightarrow> session" where
  "settle r x =
     (case inflight x of
        [] \<Rightarrow> x
      | p # ps \<Rightarrow> x\<lparr>st := fetchPhotoBatch_resume p r (st x), inflight := ps\<rparr>)"

fun step :: "session \<Rightarrow> event \<Rightarrow> session" where
  "step x Trigger = trigger x"
| "step x (Settle r) = settle r x"

definition run :: "session \<Rightarrow> event list \<Rightarrow> session" where
  "run x evs = foldl step x evs"

text \<open>The session in which the shuffled ids have been stored (lines 73 to 82 with
  \<open>shuffledPhotoIds\<close> set by line 91) and nothing was called before that. The sessions that
  start at the first render, ids still missing, start from \<open>mounted\<close> below.\<close>

definition init :: "string list \<Rightarrow> session" where
  "init ids = \<lparr>st = \<lparr>photos = [], shuffledPhotoIds = ids, currentIndex = 0,
                      loading = False, allLoaded = False, loadingRef = False\<rparr>,
               inflight = []\<rparr>"

text \<open>Bookkeeping for the statements: whether an event issues reads, and how often that
  happens along a run.\<close>

definition issues :: "session \<Rightarrow> event \<Rightarrow> bool" where
  "issues x e =
     (case e of
        Trigger \<Rightarrow> snd (fetchPhotoBatch_call (closure_of (st x)) (st x)) \<noteq> None
      | Settle r \<Rightarrow> False)"

fun fanouts :: "session \<Rightarrow> event list \<Rightarrow> nat" where
  "fanouts x [] = 0"
| "fanouts x (e # evs) = (if issues x e then 1 else 0) + fanouts (step x e) evs"

definition ceil_div :: "nat \<Rightarrow> nat \<Rightarrow> nat" where
  "ceil_div n w = (n + w - 1) div w"

text \<open>The window a call with closure \<open>c\<close> asks for (line 107).\<close>

definition nextBatchIds_of :: "closure \<Rightarrow> string list" where
  "nextBatchIds_of c =
     slice (c_shuffledPhotoIds c) (c_currentIndex c) (c_currentIndex c + BATCH_SIZE)"


definition photo_ids :: "state \<Rightarrow> jsval option list" where
  "photo_ids s = map (\<lambda>p. p ''id'') (photos s)"

text \<open>The invariant the lock maintains: at most one call is suspended, the lock is held
  while it is, and it asked for the window at the current \<open>currentIndex\<close>, which is empty only
  if there are no ids at all.\<close>

definition single_flight :: "session \<Rightarrow> bool" where
  "single_flight x \<longleftrightarrow>
     inflight x = [] \<or>
     (loadingRef (st x) \<and>
      inflight x = [\<lparr>p_nextBatchIds = nextBatchIds_of (closure_of (st x)),
                      p_currentIndex = currentIndex (st x)\<rparr>] \<and>
      (nextBatchIds_of (closure_of (st x)) \<noteq> [] \<or> shuffledPhotoIds (st x) = []))"

subsection \<open>Sessions in which any callback may be called\<close>

text \<open>
  The scroll listener holds the callback of the last render whose effects have run (lines 153
  to 162), while \<open>finally\<close> frees the lock at once and the state setters only queue a
  render. Between the two a scroll calls a callback whose closure is behind the state. The
  listener is also in place from the first render, when \<open>shuffledPhotoIds\<close> is still empty.
  In this transition system a call names the closure it runs with, whatever it is, and the
  storing of the ids (lines 91 and 92) is an action like the others.
\<close>

datatype action = Call closure | Settled remote | IdsStored "string list"

definition call_with :: "closure \<Rightarrow> session \<Rightarrow> session" where
  "call_with c x =
     (case fetchPhotoBatch_call c (st x) of
        (s', None) \<Rightarrow> x\<lparr>st := s'\<rparr>
      | (s', Some p) \<Rightarrow> x\<lparr>st := s', inflight := inflight x @ [p]\<rparr>)"

fun act :: "session \<Rightarrow> action \<Rightarrow> session" where
  "act x (Call c) = call_with c x"
| "act x (Settled r) = settle r x"
| "act x (IdsStored ids) = x\<lparr>st := (st x)\<lparr>shuffledPhotoIds := ids, loading := False\<rparr>\<rparr>"

definition perform :: "session \<Rightarrow> action list \<Rightarrow> session" where
  "perform x acts = foldl act x acts"

text \<open>The session after the first render and its effects: the initial values of lines 73
  to 82, and \<open>loading\<close> set by line 87.\<close>

definition mounted :: session where
  "mounted = \<lparr>st = \<lparr>photos = [], shuffledPhotoIds = [], currentIndex = 0,
                        loading = True, allLoaded = False, loadingRef = False\<rparr>,
              inflight = []\<rparr>"

text \<open>An action completes a batch when it settles a suspended call all of whose reads
  resolve.\<close>

definition finishes :: "session \<Rightarrow> action \<Rightarrow> bool" where
  "finishes x a =
     (case a of
        Settled r \<Rightarrow>
          (case inflight x of
             [] \<Rightarrow> False
           | p # ps \<Rightarrow> promise_all (map (getDoc r) (p_nextBatchIds p)) \<noteq> None)
      | _ \<Rightarrow> False)"

fun completed :: "session \<Rightarrow> action list \<Rightarrow> nat" where
  "completed x [] = 0"
| "completed x (a # acts) = (if finishes x a then 1 else 0) + completed (act x a) acts"

text \<open>The calls of a run are current when each one runs the callback of the state it is
  made in, and the ids are not stored again.\<close>

fun current_calls :: "session \<Rightarrow> action list \<Rightarrow> bool" where
  "current_calls x [] = True"
| "current_calls x (a # acts) =
     ((case a of
         Call c \<Rightarrow> c = closure_of (st x)
       | Settled r \<Rightarrow> True
       | IdsStored ids \<Rightarrow> False) \<and>
      current_calls (act x a) acts)"


subsection \<open>A small gallery for the closed instances\<close>

text \<open>Fourteen documents, so the second window holds two ids and the third is empty; a
  store that serves every document, and one whose read of \<open>c\<close> rejects.\<close>

definition example_ids :: "string list" where
  "example_ids = [''a'', ''b'', ''c'', ''d'', ''e'', ''f'', ''g'', ''h'', ''i'', ''j'', ''k'',
                  ''l'', ''m'', ''n'']"

definition example_store :: remote where
  "example_store ident = Some [''url'' \<mapsto> Str (''/img/'' @ ident), ''alt_description'' \<mapsto> Str ident]"

definition broken_store :: remote where
  "broken_store ident = (if ident = ''c'' then None else example_store ident)"

text \<open>A store whose documents all carry the same field \<open>id\<close>, and the callback of the
  state in which the ids have just been stored.\<close>

definition labelled_store :: remote where
  "labelled_store ident = Some [''id'' \<mapsto> Str ''photo'', ''url'' \<mapsto> Str (''/img/'' @ ident)]"

definition first_callback :: closure where
  "first_callback = \<lparr>c_currentIndex = 0, c_shuffledPhotoIds = example_ids, c_allLoaded = False\<rparr>"

definition early_callback :: closure where
  "early_callback = \<lparr>c_currentIndex = 0, c_shuffledPhotoIds = [], c_allLoaded = False\<rparr>"

section \<open>Properties of the shuffle\<close>

lemma length_swap_elems: "length (swap_elems xs i j) = length xs"
  by (simp add: swap_elems_def)

lemma mset_swap_elems:
  "i < length xs \<Longrightarrow> j < length xs \<Longrightarrow> mset (swap_elems xs i j) = mset xs"
  unfolding swap_elems_def by (rule mset_swap)

lemma shuffle_loop_0: "shuffle_loop draw 0 array = array"
  by (subst shuffle_loop.simps) simp

lemma shuffle_loop_Suc:
  "shuffle_loop draw (Suc n) array = shuffle_loop draw n (swap_elems array n (draw (Suc n)))"
  by (subst shuffle_loop.simps) (simp add: Let_def)

lemma draws_in_range_Suc:
  "draws_in_range draw (Suc n) \<longleftrightarrow> draw (Suc n) < Suc n \<and> draws_in_range draw n"
  by (auto simp add: draws_in_range_def le_Suc_eq)

lemma draws_in_rangeD: "draws_in_range draw len \<Longrightarrow> 1 \<le> n \<Longrightarrow> n \<le> len \<Longrightarrow> draw n < n"
  by (simp add: draws_in_range_def)

lemma shuffle_loop_length: "length (shuffle_loop draw n xs) = length xs"
  by (induction n arbitrary: xs) (simp_all add: shuffle_loop_0 shuffle_loop_Suc length_swap_elems)

lemma shuffle_loop_mset:
  "n \<le> length xs \<Longrightarrow> draws_in_range draw n \<Longrightarrow> mset (shuffle_loop draw n xs) = mset xs"
proof (induction n arbitrary: xs)
  case 0
  show ?case by (simp add: shuffle_loop_0)
next
  case (Suc n)
  let ?j = "draw (Suc n)"
  from Suc.prems have j: "?j < length xs" and rest: "draws_in_range draw n"
    by (simp_all add: draws_in_range_Suc)
  from Suc.prems have i: "n < length xs"
    by simp
  have "mset (shuffle_loop draw n (swap_elems xs n ?j)) = mset (swap_elems xs n ?j)"
    using i rest by (intro Suc.IH) (simp_all add: length_swap_elems)
  also have "\<dots> = mset xs"
    using i j by (rule mset_swap_elems)
  finally show ?case
    by (simp add: shuffle_loop_Suc)
qed

text \<open>
  C6. For every input list, of any length including zero, and every run of in-range draws,
  \<open>shuffleArray\<close> returns a permutation of its input: the same multiset of elements, hence
  the same number of them.
\<close>

theorem shuffleArray_permutation:
  "draws_in_range draw (length array) \<Longrightarrow>
     mset (shuffleArray draw array) = mset array \<and>
     length (shuffleArray draw array) = length array"
  by (simp add: shuffleArray_def shuffle_loop_mset shuffle_loop_length)

theorem shuffleArray_permutation_witness:
  "draws_in_range (\<lambda>n. n - 1) (length [''a'', ''b'', ''c'']) \<and>
   shuffleArray (\<lambda>n. n - 1) [''a'', ''b'', ''c''] = [''a'', ''b'', ''c''] \<and>
   draws_in_range (\<lambda>n. 0) (length [''a'', ''b'', ''c'']) \<and>
   shuffleArray (\<lambda>n. 0) [''a'', ''b'', ''c''] = [''b'', ''c'', ''a''] \<and>
   mset (shuffleArray (\<lambda>n. 0) [''a'', ''b'', ''c'']) = mset [''a'', ''b'', ''c'']"
proof -
  have r: "draws_in_range (\<lambda>n. 0) (length [''a'', ''b'', ''c''])"
    by (simp add: draws_in_range_def)
  have r': "draws_in_range (\<lambda>n. n - 1) (length [''a'', ''b'', ''c''])"
    by (simp add: draws_in_range_def)
  have v: "shuffleArray (\<lambda>n. 0) [''a'', ''b'', ''c''] = [''b'', ''c'', ''a'']"
    by (simp add: shuffleArray_def shuffle_loop_0 shuffle_loop_Suc swap_elems_def)
  have v': "shuffleArray (\<lambda>n. n - 1) [''a'', ''b'', ''c''] = [''a'', ''b'', ''c'']"
    by (simp add: shuffleArray_def shuffle_loop_0 shuffle_loop_Suc swap_elems_def)
  from shuffleArray_permutation [OF r] r r' v v' show ?thesis
    by simp
qed

lemma swap_elems_same: "swap_elems xs i i = xs"
  by (simp add: swap_elems_def)

lemma fisher_yates_from_0: "fisher_yates_from pick 0 xs = xs"
  by (subst fisher_yates_from.simps) simp

lemma fisher_yates_from_Suc:
  "fisher_yates_from pick (Suc i) xs = fisher_yates_from pick i (swap_elems xs (Suc i) (pick (Suc i)))"
  by (subst fisher_yates_from.simps) simp

text \<open>The iteration of the code that the specification leaves out is the last one, entered
  with \<open>currentIndex = 1\<close>: its draw is \<open>0\<close> and it swaps position \<open>0\<close> with itself.\<close>

lemma shuffle_loop_fisher_yates:
  "draw (Suc 0) = 0 \<Longrightarrow>
     shuffle_loop draw (Suc i) xs = fisher_yates_from (\<lambda>i. draw (Suc i)) i xs"
proof (induction i arbitrary: xs)
  case 0
  then show ?case
    by (simp add: shuffle_loop_Suc shuffle_loop_0 fisher_yates_from_0 swap_elems_same)
next
  case (Suc i)
  have "shuffle_loop draw (Suc (Suc i)) xs =
          shuffle_loop draw (Suc i) (swap_elems xs (Suc i) (draw (Suc (Suc i))))"
    by (rule shuffle_loop_Suc)
  also have "\<dots> = fisher_yates_from (\<lambda>i. draw (Suc i)) i
                       (swap_elems xs (Suc i) (draw (Suc (Suc i))))"
    using Suc.prems by (rule Suc.IH)
  also have "\<dots> = fisher_yates_from (\<lambda>i. draw (Suc i)) (Suc i) xs"
    by (simp add: fisher_yates_from_Suc)
  finally show ?case .
qed

text \<open>
  C7. \<open>shuffleArray\<close> computes what the Fisher--Yates loop of the specification computes
  when the index \<open>i\<close> of the specification is given the draw that the code makes in the
  iteration that swaps position \<open>i\<close> (the one entered with \<open>currentIndex = i + 1\<close>), and
  that draw is taken from \<open>[0, i]\<close>. The code runs one more iteration, for position \<open>0\<close>,
  which changes nothing. How the draws are distributed is a property of \<open>Math.random\<close>,
  not of the loop.
\<close>

theorem shuffleArray_refines_fisher_yates:
  "draws_in_range draw (length array) \<Longrightarrow>
     shuffleArray draw array = fisher_yates_spec (\<lambda>i. draw (Suc i)) array \<and>
     (\<forall>i. 1 \<le> i \<and> i < length array \<longrightarrow> draw (Suc i) \<in> {0..i})"
proof (cases "length array")
  case 0
  then show ?thesis
    by (simp add: shuffleArray_def fisher_yates_spec_def shuffle_loop_0 fisher_yates_from_0)
next
  case (Suc m)
  assume r: "draws_in_range draw (length array)"
  from r Suc have "draw (Suc 0) < Suc 0"
    by (intro draws_in_rangeD [of draw "length array"]) simp_all
  then have "draw (Suc 0) = 0"
    by simp
  then have "shuffle_loop draw (Suc m) array = fisher_yates_from (\<lambda>i. draw (Suc i)) m array"
    by (rule shuffle_loop_fisher_yates)
  moreover have "\<forall>i. 1 \<le> i \<and> i < length array \<longrightarrow> draw (Suc i) \<in> {0..i}"
  proof (intro allI impI)
    fix i
    assume "1 \<le> i \<and> i < length array"
    with r have "draw (Suc i) < Suc i"
      by (intro draws_in_rangeD [of draw "length array"]) simp_all
    then show "draw (Suc i) \<in> {0..i}"
      by simp
  qed
  ultimately show ?thesis
    using Suc by (simp add: shuffleArray_def fisher_yates_spec_def)
qed

theorem shuffleArray_refines_fisher_yates_witness:
  "draws_in_range (\<lambda>n. n div 2) (length [''a'', ''b'', ''c'', ''d'']) \<and>
   shuffleArray (\<lambda>n. n div 2) [''a'', ''b'', ''c'', ''d''] = [''a'', ''d'', ''b'', ''c''] \<and>
   fisher_yates_spec (\<lambda>i. Suc i div 2) [''a'', ''b'', ''c'', ''d''] = [''a'', ''d'', ''b'', ''c'']"
proof -
  have r: "draws_in_range (\<lambda>n. n div 2) (length [''a'', ''b'', ''c'', ''d''])"
    by (auto simp add: draws_in_range_def)
  have v: "shuffleArray (\<lambda>n. n div 2) [''a'', ''b'', ''c'', ''d''] = [''a'', ''d'', ''b'', ''c'']"
    by (simp add: shuffleArray_def shuffle_loop_0 shuffle_loop_Suc swap_elems_def)
  from shuffleArray_refines_fisher_yates [OF r] r v show ?thesis
    by simp
qed

section \<open>Properties of the loader\<close>

subsection \<open>Case analysis of a call\<close>

lemmas eval_defs = run_def init_def trigger_def settle_def fetchPhotoBatch_call_def
  fetchPhotoBatch_resume_def closure_of_def slice_def newPhotos_of_def make_photo_def
  merge_photos_def finally_block_def getDoc_def BATCH_SIZE_def example_ids_def
  example_store_def broken_store_def photo_ids_def map_add_def
  perform_def mounted_def call_with_def labelled_store_def first_callback_def
  early_callback_def


lemma call_guard: "loadingRef s \<or> c_allLoaded c \<Longrightarrow> fetchPhotoBatch_call c s = (s, None)"
  by (simp add: fetchPhotoBatch_call_def)

lemma call_exhausted:
  "\<not> loadingRef s \<Longrightarrow> \<not> c_allLoaded c \<Longrightarrow> nextBatchIds_of c = [] \<Longrightarrow> c_shuffledPhotoIds c \<noteq> [] \<Longrightarrow>
     fetchPhotoBatch_call c s = (s\<lparr>loading := False, allLoaded := True, loadingRef := False\<rparr>, None)"
  by (simp add: fetchPhotoBatch_call_def nextBatchIds_of_def finally_block_def Let_def)

lemma call_issue:
  "\<not> loadingRef s \<Longrightarrow> \<not> c_allLoaded c \<Longrightarrow> nextBatchIds_of c \<noteq> [] \<or> c_shuffledPhotoIds c = [] \<Longrightarrow>
     fetchPhotoBatch_call c s =
       (s\<lparr>loading := True, loadingRef := True\<rparr>,
        Some \<lparr>p_nextBatchIds = nextBatchIds_of c, p_currentIndex = c_currentIndex c\<rparr>)"
  by (auto simp add: fetchPhotoBatch_call_def nextBatchIds_of_def Let_def)

lemma call_cases:
  obtains (guard) "loadingRef s \<or> c_allLoaded c" "fetchPhotoBatch_call c s = (s, None)"
  | (exhausted) "\<not> loadingRef s" "\<not> c_allLoaded c" "nextBatchIds_of c = []" "c_shuffledPhotoIds c \<noteq> []"
      "fetchPhotoBatch_call c s = (s\<lparr>loading := False, allLoaded := True, loadingRef := False\<rparr>, None)"
  | (issue) "\<not> loadingRef s" "\<not> c_allLoaded c" "nextBatchIds_of c \<noteq> [] \<or> c_shuffledPhotoIds c = []"
      "fetchPhotoBatch_call c s =
       (s\<lparr>loading := True, loadingRef := True\<rparr>,
        Some \<lparr>p_nextBatchIds = nextBatchIds_of c, p_currentIndex = c_currentIndex c\<rparr>)"
  using call_guard call_exhausted call_issue by blast


lemma promise_all_map_Some: "promise_all (map Some xs) = Some xs"
  by (induction xs) simp_all

lemma promise_all_SomeD: "promise_all ps = Some xs \<Longrightarrow> ps = map Some xs"
  by (induction ps arbitrary: xs rule: promise_all.induct) (auto split: option.splits)

lemma promise_all_Some: "promise_all ps = Some xs \<longleftrightarrow> ps = map Some xs"
  using promise_all_map_Some promise_all_SomeD by blast

lemma resume_rejected:
  "promise_all (map (getDoc r) (p_nextBatchIds p)) = None \<Longrightarrow>
     fetchPhotoBatch_resume p r s = s\<lparr>loading := False, loadingRef := False\<rparr>"
  by (simp add: fetchPhotoBatch_resume_def finally_block_def)

lemma resume_resolved:
  "promise_all (map (getDoc r) (p_nextBatchIds p)) = Some photoDocs \<Longrightarrow>
     fetchPhotoBatch_resume p r s =
       s\<lparr>photos := merge_photos (newPhotos_of (p_currentIndex p) photoDocs) (photos s),
         currentIndex := currentIndex s + BATCH_SIZE, loading := False, loadingRef := False\<rparr>"
  by (simp add: fetchPhotoBatch_resume_def finally_block_def Let_def)

lemma getDoc_SomeD:
  "getDoc r ident = Some d \<Longrightarrow> snap_id d = ident \<and> r ident = Some (snap_data d)"
  by (cases "r ident") (auto simp add: getDoc_def)

lemma resolved_docs:
  assumes "promise_all (map (getDoc r) ids) = Some photoDocs"
  shows "map snap_id photoDocs = ids"
proof -
  from assms have eq: "map (getDoc r) ids = map Some photoDocs"
    by (rule promise_all_SomeD)
  then have len: "length photoDocs = length ids"
    by (metis length_map)
  show ?thesis
  proof (rule nth_equalityI)
    show "length (map snap_id photoDocs) = length ids"
      using len by simp
  next
    fix i
    assume "i < length (map snap_id photoDocs)"
    then have i: "i < length ids" "i < length photoDocs"
      using len by simp_all
    from eq have "map (getDoc r) ids ! i = map Some photoDocs ! i"
      by simp
    with i have "getDoc r (ids ! i) = Some (photoDocs ! i)"
      by simp
    then have "snap_id (photoDocs ! i) = ids ! i"
      by (simp add: getDoc_SomeD)
    with i show "map snap_id photoDocs ! i = ids ! i"
      by simp
  qed
qed


lemma nextBatchIds_nth:
  "i < length (nextBatchIds_of c) \<Longrightarrow>
     c_currentIndex c + i < length (c_shuffledPhotoIds c) \<and>
     nextBatchIds_of c ! i = c_shuffledPhotoIds c ! (c_currentIndex c + i)"
  by (auto simp add: nextBatchIds_of_def slice_def)

lemma newPhotos_nth:
  "i < length photoDocs \<Longrightarrow> newPhotos_of cur photoDocs ! i = make_photo cur i (photoDocs ! i)"
  by (simp add: newPhotos_of_def nth_enumerate_eq)


lemma make_photo_index: "make_photo cur i d ''index'' = Some (Num (int (cur + i)))"
  by (simp add: make_photo_def)


lemma closure_of_lock [simp]:
  "closure_of (s\<lparr>loading := a, loadingRef := b\<rparr>) = closure_of s"
  by (simp add: closure_of_def)

lemma trigger_noop: "loadingRef (st x) \<or> allLoaded (st x) \<Longrightarrow> trigger x = x"
  by (simp add: trigger_def call_guard closure_of_def)

lemma issues_iff:
  "issues x Trigger \<longleftrightarrow>
     \<not> loadingRef (st x) \<and> \<not> allLoaded (st x) \<and>
     (nextBatchIds_of (closure_of (st x)) \<noteq> [] \<or> shuffledPhotoIds (st x) = [])"
  by (cases rule: call_cases [of "st x" "closure_of (st x)"])
     (auto simp add: issues_def closure_of_def)

lemma trigger_issue:
  "issues x Trigger \<Longrightarrow>
     trigger x = x\<lparr>st := (st x)\<lparr>loading := True, loadingRef := True\<rparr>,
                   inflight := inflight x @
                     [\<lparr>p_nextBatchIds = nextBatchIds_of (closure_of (st x)),
                       p_currentIndex = currentIndex (st x)\<rparr>]\<rparr>"
  by (simp add: issues_iff trigger_def call_issue closure_of_def)

lemma trigger_cases:
  obtains (noop) "loadingRef (st x) \<or> allLoaded (st x)" "trigger x = x"
  | (exhausted) "\<not> loadingRef (st x)" "\<not> allLoaded (st x)"
      "nextBatchIds_of (closure_of (st x)) = []" "shuffledPhotoIds (st x) \<noteq> []"
      "trigger x = x\<lparr>st := (st x)\<lparr>loading := False, allLoaded := True, loadingRef := False\<rparr>\<rparr>"
  | (issue) "\<not> loadingRef (st x)" "\<not> allLoaded (st x)"
      "nextBatchIds_of (closure_of (st x)) \<noteq> [] \<or> shuffledPhotoIds (st x) = []"
      "trigger x = x\<lparr>st := (st x)\<lparr>loading := True, loadingRef := True\<rparr>,
                   inflight := inflight x @
                     [\<lparr>p_nextBatchIds = nextBatchIds_of (closure_of (st x)),
                       p_currentIndex = currentIndex (st x)\<rparr>]\<rparr>"
proof (cases rule: call_cases [of "st x" "closure_of (st x)"])
  case guard
  then show ?thesis
    using noop by (simp add: trigger_noop closure_of_def)
next
  case exhausted
  then show ?thesis
    using that(2) by (simp add: trigger_def closure_of_def)
next
  case issue
  then show ?thesis
    using that(3) by (simp add: trigger_def closure_of_def)
qed

lemma run_Nil: "run x [] = x"
  by (simp add: run_def)

lemma run_Cons: "run x (e # evs) = run (step x e) evs"
  by (simp add: run_def)

lemma run_append: "run x (evs @ evs') = run (run x evs) evs'"
  by (simp add: run_def)

lemma resume_allLoaded: "allLoaded (fetchPhotoBatch_resume p r s) = allLoaded s"
  by (cases "promise_all (map (getDoc r) (p_nextBatchIds p))")
     (simp_all add: resume_rejected resume_resolved)

lemma resume_shuffledPhotoIds: "shuffledPhotoIds (fetchPhotoBatch_resume p r s) = shuffledPhotoIds s"
  by (cases "promise_all (map (getDoc r) (p_nextBatchIds p))")
     (simp_all add: resume_rejected resume_resolved)

lemma resume_unlocks: "\<not> loadingRef (fetchPhotoBatch_resume p r s)"
  by (cases "promise_all (map (getDoc r) (p_nextBatchIds p))")
     (simp_all add: resume_rejected resume_resolved)

lemma call_allLoaded:
  "allLoaded (fst (fetchPhotoBatch_call c s)) \<longleftrightarrow>
     allLoaded s \<or>
     (\<not> loadingRef s \<and> \<not> c_allLoaded c \<and> nextBatchIds_of c = [] \<and> c_shuffledPhotoIds c \<noteq> [])"
  by (cases rule: call_cases [of s c]) auto

lemma resume_no_ids:
  "p_nextBatchIds p = [] \<Longrightarrow>
     fetchPhotoBatch_resume p r s =
       s\<lparr>currentIndex := currentIndex s + BATCH_SIZE, loading := False, loadingRef := False\<rparr>"
  by (simp add: fetchPhotoBatch_resume_def newPhotos_of_def merge_photos_def finally_block_def
      enumerate_eq_zip)

subsection \<open>The lock\<close>

text \<open>
  C1. A call of \<open>fetchPhotoBatch\<close> that finds the lock held, or whose closure holds
  \<open>allLoaded = true\<close>, returns at once and leaves the state as it is. The test of the lock
  and its assignment lie in the same uninterrupted step, so a call that issued its reads
  leaves the lock held, and any call made before those reads settle, whatever its closure,
  does nothing: of two triggers in a row the first one alone issues reads, and one call is
  suspended afterwards.
\<close>

theorem fetchPhotoBatch_single_flight:
  "(loadingRef s \<or> c_allLoaded c \<longrightarrow> fetchPhotoBatch_call c s = (s, None)) \<and>
   (fetchPhotoBatch_call c s = (s1, Some p) \<longrightarrow>
      loadingRef s1 \<and> fetchPhotoBatch_call c' s1 = (s1, None)) \<and>
   (loadingRef (st x) \<or> allLoaded (st x) \<longrightarrow> trigger x = x) \<and>
   (issues x Trigger \<longrightarrow>
      trigger (trigger x) = trigger x \<and>
      length (inflight (run x [Trigger, Trigger])) = length (inflight x) + 1 \<and>
      fanouts x [Trigger, Trigger] = 1)"
proof (intro conjI impI)
  assume "loadingRef s \<or> c_allLoaded c"
  then show "fetchPhotoBatch_call c s = (s, None)"
    by (rule call_guard)
next
  assume a: "fetchPhotoBatch_call c s = (s1, Some p)"
  then show l: "loadingRef s1"
    by (cases rule: call_cases [of s c]) auto
  then show "fetchPhotoBatch_call c' s1 = (s1, None)"
    by (simp add: call_guard)
next
  assume "loadingRef (st x) \<or> allLoaded (st x)"
  then show "trigger x = x"
    by (rule trigger_noop)
next
  assume i: "issues x Trigger"
  then have locked: "loadingRef (st (trigger x))"
    by (simp add: trigger_issue)
  then show again: "trigger (trigger x) = trigger x"
    by (simp add: trigger_noop)
  from i again show "length (inflight (run x [Trigger, Trigger])) = length (inflight x) + 1"
    by (simp add: run_def trigger_issue)
  from locked have "\<not> issues (trigger x) Trigger"
    by (simp add: issues_iff)
  with i show "fanouts x [Trigger, Trigger] = 1"
    by simp
qed

theorem fetchPhotoBatch_single_flight_witness:
  "fetchPhotoBatch_call (closure_of (st (init example_ids)))
     ((st (init example_ids))\<lparr>loadingRef := True\<rparr>) =
     ((st (init example_ids))\<lparr>loadingRef := True\<rparr>, None) \<and>
   issues (init example_ids) Trigger \<and>
   trigger (trigger (init example_ids)) = trigger (init example_ids) \<and>
   inflight (run (init example_ids) [Trigger, Trigger]) =
     [\<lparr>p_nextBatchIds = take 12 example_ids, p_currentIndex = 0\<rparr>] \<and>
   fanouts (init example_ids) [Trigger, Trigger] = 1"
proof -
  have l: "loadingRef ((st (init example_ids))\<lparr>loadingRef := True\<rparr>) \<or>
           c_allLoaded (closure_of (st (init example_ids)))"
    by simp
  have i: "issues (init example_ids) Trigger"
    by (simp add: issues_def eval_defs)
  have v: "inflight (trigger (init example_ids)) =
     [\<lparr>p_nextBatchIds = take 12 example_ids, p_currentIndex = 0\<rparr>]"
    by (simp add: eval_defs)
  note t = fetchPhotoBatch_single_flight
         [of "(st (init example_ids))\<lparr>loadingRef := True\<rparr>"
             "closure_of (st (init example_ids))"
             "(st (init example_ids))\<lparr>loadingRef := True\<rparr>"
             "\<lparr>p_nextBatchIds = [], p_currentIndex = 0\<rparr>"
             "closure_of (st (init example_ids))" "init example_ids"]
  from t l have a: "fetchPhotoBatch_call (closure_of (st (init example_ids)))
     ((st (init example_ids))\<lparr>loadingRef := True\<rparr>) =
     ((st (init example_ids))\<lparr>loadingRef := True\<rparr>, None)"
    by blast
  from t i have b: "trigger (trigger (init example_ids)) = trigger (init example_ids)"
    and f: "fanouts (init example_ids) [Trigger, Trigger] = 1"
    by blast+
  from b v have w: "inflight (run (init example_ids) [Trigger, Trigger]) =
     [\<lparr>p_nextBatchIds = take 12 example_ids, p_currentIndex = 0\<rparr>]"
    by (simp add: run_def)
  from a i b w f show ?thesis
    by (intro conjI)
qed

lemma single_flight_step: "single_flight x \<Longrightarrow> single_flight (step x e)"
proof (cases e)
  case Trigger
  assume sf: "single_flight x"
  show ?thesis
  proof (cases rule: trigger_cases [of x])
    case noop
    with sf Trigger show ?thesis by simp
  next
    case exhausted
    with sf have "inflight x = []" by (auto simp add: single_flight_def)
    with exhausted Trigger show ?thesis by (simp add: single_flight_def)
  next
    case issue
    with sf have "inflight x = []" by (auto simp add: single_flight_def)
    with issue Trigger show ?thesis by (simp add: single_flight_def)
  qed
next
  case (Settle r)
  assume sf: "single_flight x"
  then have "inflight (settle r x) = []"
    by (cases "inflight x") (auto simp add: single_flight_def settle_def)
  with Settle show ?thesis by (simp add: single_flight_def)
qed

lemma single_flight_init: "single_flight (init ids)"
  by (simp add: single_flight_def init_def)

lemma single_flight_run: "single_flight x \<Longrightarrow> single_flight (run x evs)"
  by (induction evs arbitrary: x) (simp_all add: run_Nil run_Cons single_flight_step)

subsection \<open>Exhaustion\<close>

text \<open>
  C10. On the exhaustion branch (the window is empty and the list of ids is not) the call
  sets \<open>allLoaded\<close> and returns without suspending; \<open>currentIndex\<close>, \<open>photos\<close> and the ids
  keep their values, and the \<open>finally\<close> block has released the lock and cleared \<open>loading\<close>.
\<close>

theorem exhaustion_branch_frame:
  "\<not> loadingRef s \<Longrightarrow> \<not> c_allLoaded c \<Longrightarrow>
   nextBatchIds_of c = [] \<Longrightarrow> c_shuffledPhotoIds c \<noteq> [] \<Longrightarrow>
     fetchPhotoBatch_call c s = (s\<lparr>loading := False, allLoaded := True, loadingRef := False\<rparr>, None) \<and>
     allLoaded (fst (fetchPhotoBatch_call c s)) \<and>
     currentIndex (fst (fetchPhotoBatch_call c s)) = currentIndex s \<and>
     photos (fst (fetchPhotoBatch_call c s)) = photos s \<and>
     shuffledPhotoIds (fst (fetchPhotoBatch_call c s)) = shuffledPhotoIds s \<and>
     \<not> loadingRef (fst (fetchPhotoBatch_call c s)) \<and>
     \<not> loading (fst (fetchPhotoBatch_call c s))"
  by (simp add: call_exhausted)

theorem exhaustion_branch_frame_witness:
  "\<not> loadingRef ((st (init example_ids))\<lparr>currentIndex := 24\<rparr>) \<and>
   \<not> c_allLoaded (closure_of ((st (init example_ids))\<lparr>currentIndex := 24\<rparr>)) \<and>
   nextBatchIds_of (closure_of ((st (init example_ids))\<lparr>currentIndex := 24\<rparr>)) = [] \<and>
   c_shuffledPhotoIds (closure_of ((st (init example_ids))\<lparr>currentIndex := 24\<rparr>)) \<noteq> [] \<and>
   fetchPhotoBatch_call (closure_of ((st (init example_ids))\<lparr>currentIndex := 24\<rparr>))
     ((st (init example_ids))\<lparr>currentIndex := 24\<rparr>) =
     ((st (init example_ids))\<lparr>currentIndex := 24, allLoaded := True\<rparr>, None)"
proof -
  let ?s = "(st (init example_ids))\<lparr>currentIndex := 24\<rparr>"
  have h: "\<not> loadingRef ?s" "\<not> c_allLoaded (closure_of ?s)"
    "nextBatchIds_of (closure_of ?s) = []" "c_shuffledPhotoIds (closure_of ?s) \<noteq> []"
    by (simp_all add: nextBatchIds_of_def eval_defs)
  from exhaustion_branch_frame [OF h] h show ?thesis
    by (simp add: init_def)
qed

lemma step_allLoaded: "allLoaded (st x) \<Longrightarrow> allLoaded (st (step x e)) \<and> \<not> issues x e"
proof (cases e)
  case Trigger
  assume "allLoaded (st x)"
  with Trigger show ?thesis
    by (simp add: trigger_noop issues_iff)
next
  case (Settle r)
  assume "allLoaded (st x)"
  with Settle show ?thesis
    by (cases "inflight x") (simp_all add: settle_def resume_allLoaded issues_def)
qed

lemma run_allLoaded:
  "allLoaded (st x) \<Longrightarrow> allLoaded (st (run x evs)) \<and> fanouts x evs = 0"
proof (induction evs arbitrary: x)
  case Nil
  then show ?case by (simp add: run_Nil)
next
  case (Cons e evs)
  from step_allLoaded [OF Cons.prems, of e]
  have "allLoaded (st (step x e))" and "\<not> issues x e"
    by simp_all
  with Cons.IH [of "step x e"] show ?case
    by (simp add: run_Cons)
qed

text \<open>
  C5. Once \<open>allLoaded\<close> is true it stays true along every run, and no trigger issues reads
  any more. A call turns the flag on exactly when it passes the guard and finds its window
  empty while the list of ids is not; the resumed part of a call never changes the flag.
\<close>

theorem exhaustion_is_terminal:
  "(allLoaded (st x) \<longrightarrow> allLoaded (st (run x evs)) \<and> fanouts x evs = 0) \<and>
   (allLoaded (fst (fetchPhotoBatch_call c s)) \<longleftrightarrow>
      allLoaded s \<or>
      (\<not> loadingRef s \<and> \<not> c_allLoaded c \<and> nextBatchIds_of c = [] \<and> c_shuffledPhotoIds c \<noteq> [])) \<and>
   allLoaded (fetchPhotoBatch_resume p r s) = allLoaded s"
  using run_allLoaded [of x evs] call_allLoaded [of c s] resume_allLoaded [of p r s]
  by blast

theorem exhaustion_is_terminal_witness:
  "allLoaded (st (trigger ((init example_ids)\<lparr>st := (st (init example_ids))\<lparr>currentIndex := 24\<rparr>\<rparr>))) \<and>
   allLoaded (st (run (trigger ((init example_ids)\<lparr>st := (st (init example_ids))\<lparr>currentIndex := 24\<rparr>\<rparr>))
     [Trigger, Trigger, Settle example_store, Trigger])) \<and>
   fanouts (trigger ((init example_ids)\<lparr>st := (st (init example_ids))\<lparr>currentIndex := 24\<rparr>\<rparr>))
     [Trigger, Trigger, Settle example_store, Trigger] = 0"
proof -
  let ?x = "trigger ((init example_ids)\<lparr>st := (st (init example_ids))\<lparr>currentIndex := 24\<rparr>\<rparr>)"
  have a: "allLoaded (st ?x)"
    by (simp add: eval_defs)
  from exhaustion_is_terminal [of ?x "[Trigger, Trigger, Settle example_store, Trigger]"] a
  show ?thesis
    by simp
qed

subsection \<open>Failed and completed batches\<close>



text \<open>
  C8. In a batch whose reads all resolve, the photo built from the \<open>i\<close>-th snapshot carries
  \<open>index = currentIndex + i\<close>, which is the position in \<open>shuffledPhotoIds\<close> of the id that
  snapshot was read for; these photos, less the ones whose id is already present, are what
  is appended to \<open>photos\<close>.
\<close>

theorem batch_index_tags:
  assumes "fetchPhotoBatch_call (closure_of s) s = (s1, Some p)"
    and "promise_all (map (getDoc r) (p_nextBatchIds p)) = Some photoDocs"
    and "i < length photoDocs"
  shows "(newPhotos_of (p_currentIndex p) photoDocs ! i) ''index'' =
           Some (Num (int (currentIndex s + i))) \<and>
         currentIndex s + i < length (shuffledPhotoIds s) \<and>
         snap_id (photoDocs ! i) = shuffledPhotoIds s ! (currentIndex s + i) \<and>
         photos (fetchPhotoBatch_resume p r s1) =
           merge_photos (newPhotos_of (currentIndex s) photoDocs) (photos s)"
proof -
  from assms(1) have s1: "s1 = s\<lparr>loading := True, loadingRef := True\<rparr>"
    and p: "p = \<lparr>p_nextBatchIds = nextBatchIds_of (closure_of s),
                 p_currentIndex = c_currentIndex (closure_of s)\<rparr>"
    by (cases rule: call_cases [of s "closure_of s"]; simp)+
  have cur: "p_currentIndex p = currentIndex s"
    by (simp add: p closure_of_def)
  from assms(2) have ids: "map snap_id photoDocs = nextBatchIds_of (closure_of s)"
    by (simp add: resolved_docs p)
  then have len: "length photoDocs = length (nextBatchIds_of (closure_of s))"
    by (metis length_map)
  with assms(3) have i: "i < length (nextBatchIds_of (closure_of s))"
    by simp
  from ids assms(3) have "snap_id (photoDocs ! i) = nextBatchIds_of (closure_of s) ! i"
    by (metis nth_map)
  with nextBatchIds_nth [OF i]
  have pos: "currentIndex s + i < length (shuffledPhotoIds s)"
            "snap_id (photoDocs ! i) = shuffledPhotoIds s ! (currentIndex s + i)"
    by (simp_all add: closure_of_def)
  have tag: "(newPhotos_of (p_currentIndex p) photoDocs ! i) ''index'' =
           Some (Num (int (currentIndex s + i)))"
    using assms(3) by (simp add: newPhotos_nth make_photo_index cur)
  have merged: "photos (fetchPhotoBatch_resume p r s1) =
           merge_photos (newPhotos_of (currentIndex s) photoDocs) (photos s)"
    using assms(2) by (simp add: resume_resolved cur s1)
  from tag pos merged show ?thesis
    by simp
qed

theorem batch_index_tags_witness:
  "fetchPhotoBatch_call (closure_of ((st (init example_ids))\<lparr>currentIndex := 12\<rparr>))
     ((st (init example_ids))\<lparr>currentIndex := 12\<rparr>) =
     ((st (init example_ids))\<lparr>currentIndex := 12, loading := True, loadingRef := True\<rparr>,
      Some \<lparr>p_nextBatchIds = [''m'', ''n''], p_currentIndex = 12\<rparr>) \<and>
   promise_all (map (getDoc example_store) [''m'', ''n'']) =
     Some [\<lparr>snap_id = ''m'', snap_data = the (example_store ''m'')\<rparr>,
           \<lparr>snap_id = ''n'', snap_data = the (example_store ''n'')\<rparr>] \<and>
   (newPhotos_of 12 [\<lparr>snap_id = ''m'', snap_data = the (example_store ''m'')\<rparr>,
           \<lparr>snap_id = ''n'', snap_data = the (example_store ''n'')\<rparr>] ! 1) ''index'' =
     Some (Num 13) \<and>
   example_ids ! 13 = ''n''"
proof -
  let ?s = "(st (init example_ids))\<lparr>currentIndex := 12\<rparr>"
  let ?s1 = "?s\<lparr>loading := True, loadingRef := True\<rparr>"
  let ?p = "\<lparr>p_nextBatchIds = [''m'', ''n''], p_currentIndex = 12\<rparr>"
  let ?docs = "[\<lparr>snap_id = ''m'', snap_data = the (example_store ''m'')\<rparr>,
           \<lparr>snap_id = ''n'', snap_data = the (example_store ''n'')\<rparr>]"
  have c: "fetchPhotoBatch_call (closure_of ?s) ?s = (?s1, Some ?p)"
    by (simp add: eval_defs)
  have d: "promise_all (map (getDoc example_store) [''m'', ''n'']) = Some ?docs"
    by (simp add: eval_defs)
  then have d': "promise_all (map (getDoc example_store) (p_nextBatchIds ?p)) = Some ?docs"
    by simp
  have i: "1 < length ?docs"
    by simp
  have "(newPhotos_of (p_currentIndex ?p) ?docs ! 1) ''index'' =
          Some (Num (int (currentIndex ?s + 1)))"
    using batch_index_tags [OF c d' i] by (rule conjunct1)
  then have t: "(newPhotos_of 12 ?docs ! 1) ''index'' = Some (Num 13)"
    by simp
  have e: "example_ids ! 13 = ''n''"
    by (simp add: example_ids_def)
  from c d t e show ?thesis
    by (intro conjI)
qed

subsection \<open>The cursor\<close>

lemma empty_call:
  assumes "shuffledPhotoIds s = []" "\<not> loadingRef s" "\<not> allLoaded s"
  shows "fetchPhotoBatch_call (closure_of s) s =
           (s\<lparr>loading := True, loadingRef := True\<rparr>,
            Some \<lparr>p_nextBatchIds = [], p_currentIndex = currentIndex s\<rparr>)"
proof -
  have "nextBatchIds_of (closure_of s) = []"
    using assms(1) by (simp add: nextBatchIds_of_def closure_of_def slice_def)
  moreover have "c_shuffledPhotoIds (closure_of s) = []" "\<not> c_allLoaded (closure_of s)"
    "c_currentIndex (closure_of s) = currentIndex s"
    using assms by (simp_all add: closure_of_def)
  ultimately show ?thesis
    using assms(2) call_issue [of s "closure_of s"] by simp
qed

lemma resume_empty:
  "fetchPhotoBatch_resume \<lparr>p_nextBatchIds = [], p_currentIndex = k\<rparr> r s =
     s\<lparr>currentIndex := currentIndex s + BATCH_SIZE, loading := False, loadingRef := False\<rparr>"
  by (simp add: fetchPhotoBatch_resume_def newPhotos_of_def merge_photos_def finally_block_def
      enumerate_eq_zip)

lemma empty_round:
  assumes "shuffledPhotoIds (st x) = []" "\<not> loadingRef (st x)" "\<not> allLoaded (st x)" "inflight x = []"
  shows "settle r (trigger x) =
           x\<lparr>st := (st x)\<lparr>currentIndex := currentIndex (st x) + BATCH_SIZE, loading := False\<rparr>\<rparr>"
proof -
  from assms have "trigger x = x\<lparr>st := (st x)\<lparr>loading := True, loadingRef := True\<rparr>,
      inflight := [\<lparr>p_nextBatchIds = [], p_currentIndex = currentIndex (st x)\<rparr>]\<rparr>"
    by (simp add: trigger_def empty_call)
  then show ?thesis
    using assms(2,4) by (simp add: settle_def resume_empty)
qed

lemma empty_rounds:
  assumes "shuffledPhotoIds (st x) = []" "\<not> loadingRef (st x)" "\<not> allLoaded (st x)" "inflight x = []"
  shows "run x (concat (map (\<lambda>r. [Trigger, Settle r]) rs)) =
           x\<lparr>st := (st x)\<lparr>currentIndex := currentIndex (st x) + BATCH_SIZE * length rs,
                          loading := (if rs = [] then loading (st x) else False)\<rparr>\<rparr>"
  using assms
proof (induction rs arbitrary: x)
  case Nil
  then show ?case by (simp add: run_Nil)
next
  case (Cons r rs)
  let ?y = "settle r (trigger x)"
  have y: "?y = x\<lparr>st := (st x)\<lparr>currentIndex := currentIndex (st x) + BATCH_SIZE, loading := False\<rparr>\<rparr>"
    using Cons.prems by (rule empty_round)
  with Cons.prems have "shuffledPhotoIds (st ?y) = []" "\<not> loadingRef (st ?y)"
    "\<not> allLoaded (st ?y)" "inflight ?y = []"
    by simp_all
  from Cons.IH [OF this] show ?case
    by (simp add: run_Cons y algebra_simps)
qed

lemma empty_order_step:
  assumes "shuffledPhotoIds (st x) = []" "\<not> allLoaded (st x)" "photos (st x) = []"
    "\<forall>p\<in>set (inflight x). p_nextBatchIds p = []"
  shows "shuffledPhotoIds (st (step x e)) = [] \<and> \<not> allLoaded (st (step x e)) \<and>
         photos (st (step x e)) = [] \<and> (\<forall>p\<in>set (inflight (step x e)). p_nextBatchIds p = [])"
proof (cases e)
  case Trigger
  have w: "nextBatchIds_of (closure_of (st x)) = []"
    using assms(1) by (simp add: nextBatchIds_of_def closure_of_def slice_def)
  show ?thesis
  proof (cases rule: call_cases [of "st x" "closure_of (st x)"])
    case guard
    with assms Trigger show ?thesis by (simp add: trigger_def)
  next
    case exhausted
    with assms(1) show ?thesis by (simp add: closure_of_def)
  next
    case issue
    with assms Trigger w show ?thesis by (simp add: trigger_def)
  qed
next
  case (Settle r)
  show ?thesis
  proof (cases "inflight x")
    case Nil
    with assms Settle show ?thesis by (simp add: settle_def)
  next
    case (Cons p ps)
    with assms(4) have "p_nextBatchIds p = []" by simp
    then have "fetchPhotoBatch_resume p r (st x) =
       (st x)\<lparr>currentIndex := currentIndex (st x) + BATCH_SIZE, loading := False, loadingRef := False\<rparr>"
      by (rule resume_no_ids)
    with assms Settle Cons show ?thesis by (simp add: settle_def)
  qed
qed

lemma empty_order_run:
  assumes "shuffledPhotoIds (st x) = []" "\<not> allLoaded (st x)" "photos (st x) = []"
    "\<forall>p\<in>set (inflight x). p_nextBatchIds p = []"
  shows "\<not> allLoaded (st (run x evs)) \<and> photos (st (run x evs)) = []"
  using assms
proof (induction evs arbitrary: x)
  case Nil
  then show ?case by (simp add: run_Nil)
next
  case (Cons e evs)
  from empty_order_step [OF Cons.prems, of e] Cons.IH [of "step x e"] show ?case
    by (simp add: run_Cons)
qed

text \<open>
  C9. With an empty list of ids a trigger followed by the settling of its (no) reads leaves
  \<open>allLoaded\<close> false and adds \<open>BATCH_SIZE\<close> to \<open>currentIndex\<close>; \<open>n\<close> such rounds from the
  initial session put \<open>currentIndex\<close> at \<open>n * BATCH_SIZE\<close>, and along every run \<open>allLoaded\<close>
  stays false and \<open>photos\<close> stays empty.
\<close>

theorem empty_order_cursor_unbounded:
  "(shuffledPhotoIds (st x) = [] \<and> \<not> loadingRef (st x) \<and> \<not> allLoaded (st x) \<and> inflight x = [] \<longrightarrow>
      settle r (trigger x) =
        x\<lparr>st := (st x)\<lparr>currentIndex := currentIndex (st x) + BATCH_SIZE, loading := False\<rparr>\<rparr>) \<and>
   run (init []) (concat (map (\<lambda>r. [Trigger, Settle r]) rs)) =
     (init [])\<lparr>st := (st (init []))\<lparr>currentIndex := BATCH_SIZE * length rs\<rparr>\<rparr> \<and>
   \<not> allLoaded (st (run (init []) evs)) \<and>
   photos (st (run (init []) evs)) = []"
proof (intro conjI impI)
  assume "shuffledPhotoIds (st x) = [] \<and> \<not> loadingRef (st x) \<and> \<not> allLoaded (st x) \<and> inflight x = []"
  then show "settle r (trigger x) =
        x\<lparr>st := (st x)\<lparr>currentIndex := currentIndex (st x) + BATCH_SIZE, loading := False\<rparr>\<rparr>"
    by (simp add: empty_round)
next
  have "shuffledPhotoIds (st (init [])) = []" "\<not> loadingRef (st (init []))"
    "\<not> allLoaded (st (init []))" "inflight (init []) = []"
    by (simp_all add: init_def)
  from empty_rounds [OF this, of rs]
  show "run (init []) (concat (map (\<lambda>r. [Trigger, Settle r]) rs)) =
     (init [])\<lparr>st := (st (init []))\<lparr>currentIndex := BATCH_SIZE * length rs\<rparr>\<rparr>"
    by (simp add: init_def)
next
  have e: "shuffledPhotoIds (st (init [])) = []" "\<not> allLoaded (st (init []))"
    "photos (st (init [])) = []" "\<forall>p\<in>set (inflight (init [])). p_nextBatchIds p = []"
    by (simp_all add: init_def)
  from empty_order_run [OF e, of evs]
  show "\<not> allLoaded (st (run (init []) evs))" and "photos (st (run (init []) evs)) = []"
    by simp_all
qed

theorem empty_order_cursor_unbounded_witness:
  "shuffledPhotoIds (st (init [])) = [] \<and> \<not> loadingRef (st (init [])) \<and>
   \<not> allLoaded (st (init [])) \<and> inflight (init []) = [] \<and>
   settle example_store (trigger (init [])) =
     (init [])\<lparr>st := (st (init []))\<lparr>currentIndex := 12\<rparr>\<rparr> \<and>
   currentIndex (st (run (init [])
     [Trigger, Settle example_store, Trigger, Settle broken_store, Trigger, Settle example_store])) = 36"
proof -
  have h: "shuffledPhotoIds (st (init [])) = [] \<and> \<not> loadingRef (st (init [])) \<and>
   \<not> allLoaded (st (init [])) \<and> inflight (init []) = []"
    by (simp add: init_def)
  from empty_order_cursor_unbounded
         [of "init []" example_store "[example_store, broken_store, example_store]"] h
  show ?thesis
    by (simp add: init_def BATCH_SIZE_def)
qed

lemma ceil_div_least:
  assumes "0 < w"
  shows "n \<le> ceil_div n w * w \<and> (\<forall>k. n \<le> k * w \<longrightarrow> ceil_div n w \<le> k)"
proof (intro conjI allI impI)
  have "n + w - 1 < ((n + w - 1) div w) * w + w"
    using assms by (metis add.commute dividend_less_div_times mult.commute)
  with assms show "n \<le> ceil_div n w * w"
    by (simp add: ceil_div_def)
next
  fix k
  assume "n \<le> k * w"
  with assms have "n + w - 1 < (k + 1) * w"
    by simp
  then have "(n + w - 1) div w < k + 1"
    using assms by (simp add: less_mult_imp_div_less)
  then show "ceil_div n w \<le> k"
    by (simp add: ceil_div_def)
qed

lemma ceil_div_next:
  assumes "BATCH_SIZE dvd k" "k < n"
  shows "k + BATCH_SIZE \<le> ceil_div n BATCH_SIZE * BATCH_SIZE"
proof -
  from assms(1) obtain m where k: "k = 12 * m"
    by (auto simp add: BATCH_SIZE_def elim: dvdE)
  with assms(2) have "m + 1 \<le> (n + 11) div 12"
    by simp
  then have "(m + 1) * 12 \<le> ((n + 11) div 12) * 12"
    by (rule mult_le_mono1)
  with k show ?thesis
    by (simp add: ceil_div_def BATCH_SIZE_def algebra_simps)
qed

lemma window_nonempty:
  "nextBatchIds_of (closure_of s) \<noteq> [] \<Longrightarrow> currentIndex s < length (shuffledPhotoIds s)"
  by (simp add: nextBatchIds_of_def closure_of_def slice_def)

lemma cursor_cap_step:
  assumes "single_flight x" "shuffledPhotoIds (st x) \<noteq> []"
    "BATCH_SIZE dvd currentIndex (st x)"
    "currentIndex (st x) \<le> ceil_div (length (shuffledPhotoIds (st x))) BATCH_SIZE * BATCH_SIZE"
  shows "shuffledPhotoIds (st (step x e)) = shuffledPhotoIds (st x) \<and>
         BATCH_SIZE dvd currentIndex (st (step x e)) \<and>
         currentIndex (st (step x e)) \<le>
           ceil_div (length (shuffledPhotoIds (st x))) BATCH_SIZE * BATCH_SIZE"
proof (cases e)
  case Trigger
  show ?thesis
    using assms Trigger by (cases rule: trigger_cases [of x]) simp_all
next
  case (Settle r)
  show ?thesis
  proof (cases "inflight x")
    case Nil
    with assms Settle show ?thesis by (simp add: settle_def)
  next
    case (Cons p ps)
    with assms(1,2) have p: "p_nextBatchIds p = nextBatchIds_of (closure_of (st x))"
      and w: "nextBatchIds_of (closure_of (st x)) \<noteq> []"
      by (auto simp add: single_flight_def)
    from w have lt: "currentIndex (st x) < length (shuffledPhotoIds (st x))"
      by (rule window_nonempty)
    show ?thesis
    proof (cases "promise_all (map (getDoc r) (p_nextBatchIds p))")
      case None
      with assms Settle Cons show ?thesis
        by (simp add: settle_def resume_rejected)
    next
      case (Some photoDocs)
      from ceil_div_next [OF assms(3) lt] assms(3) Settle Cons Some show ?thesis
        by (simp add: settle_def resume_resolved)
    qed
  qed
qed

lemma cursor_cap_run:
  assumes "single_flight x" "shuffledPhotoIds (st x) \<noteq> []"
    "BATCH_SIZE dvd currentIndex (st x)"
    "currentIndex (st x) \<le> ceil_div (length (shuffledPhotoIds (st x))) BATCH_SIZE * BATCH_SIZE"
  shows "currentIndex (st (run x evs)) \<le>
           ceil_div (length (shuffledPhotoIds (st x))) BATCH_SIZE * BATCH_SIZE"
  using assms
proof (induction evs arbitrary: x)
  case Nil
  then show ?case by (simp add: run_Nil)
next
  case (Cons e evs)
  from cursor_cap_step [OF Cons.prems, of e] single_flight_step [OF Cons.prems(1), of e]
    Cons.prems(2) Cons.IH [of "step x e"]
  show ?case
    by (simp add: run_Cons)
qed

subsection \<open>The cursor when any callback may be called\<close>

lemma perform_Nil: "perform x [] = x"
  by (simp add: perform_def)

lemma perform_Cons: "perform x (a # acts) = perform (act x a) acts"
  by (simp add: perform_def)

lemma call_with_current: "call_with (closure_of (st x)) x = trigger x"
  by (simp add: call_with_def trigger_def)

lemma call_with_cases:
  obtains (noop) "loadingRef (st x) \<or> c_allLoaded c" "call_with c x = x"
  | (exhausted) "\<not> loadingRef (st x)" "\<not> c_allLoaded c"
      "nextBatchIds_of c = []" "c_shuffledPhotoIds c \<noteq> []"
      "call_with c x = x\<lparr>st := (st x)\<lparr>loading := False, allLoaded := True, loadingRef := False\<rparr>\<rparr>"
  | (issue) "\<not> loadingRef (st x)" "\<not> c_allLoaded c"
      "nextBatchIds_of c \<noteq> [] \<or> c_shuffledPhotoIds c = []"
      "call_with c x = x\<lparr>st := (st x)\<lparr>loading := True, loadingRef := True\<rparr>,
                   inflight := inflight x @
                     [\<lparr>p_nextBatchIds = nextBatchIds_of c, p_currentIndex = c_currentIndex c\<rparr>]\<rparr>"
proof (cases rule: call_cases [of "st x" c])
  case guard
  then show ?thesis
    using noop by (simp add: call_with_def)
next
  case exhausted
  then show ?thesis
    using that(2) by (simp add: call_with_def)
next
  case issue
  then show ?thesis
    using that(3) by (simp add: call_with_def)
qed

lemma act_currentIndex:
  "currentIndex (st (act x a)) = currentIndex (st x) + (if finishes x a then BATCH_SIZE else 0)"
proof (cases a)
  case (Call c)
  then show ?thesis
    by (cases rule: call_with_cases [of x c]) (simp_all add: finishes_def)
next
  case (Settled r)
  show ?thesis
  proof (cases "inflight x")
    case Nil
    with Settled show ?thesis by (simp add: settle_def finishes_def)
  next
    case (Cons p ps)
    with Settled show ?thesis
      by (cases "promise_all (map (getDoc r) (p_nextBatchIds p))")
         (simp_all add: settle_def finishes_def resume_rejected resume_resolved)
  qed
next
  case (IdsStored ids)
  then show ?thesis by (simp add: finishes_def)
qed

lemma perform_currentIndex:
  "currentIndex (st (perform x acts)) = currentIndex (st x) + BATCH_SIZE * completed x acts"
proof (induction acts arbitrary: x)
  case Nil
  show ?case by (simp add: perform_Nil)
next
  case (Cons a acts)
  show ?case
    by (simp add: perform_Cons Cons.IH act_currentIndex)
qed

lemma current_calls_run: "current_calls x acts \<Longrightarrow> \<exists>evs. perform x acts = run x evs"
proof (induction acts arbitrary: x)
  case Nil
  have "perform x [] = run x []"
    by (simp add: perform_Nil run_Nil)
  then show ?case ..
next
  case (Cons a acts)
  from Cons.prems have rest: "current_calls (act x a) acts"
    by simp
  from Cons.prems obtain e where e: "act x a = step x e"
  proof (cases a)
    case (Call c)
    with Cons.prems have "act x a = step x Trigger"
      by (simp add: call_with_current)
    then show ?thesis by (rule that)
  next
    case (Settled r)
    then have "act x a = step x (Settle r)"
      by simp
    then show ?thesis by (rule that)
  next
    case (IdsStored ids)
    with Cons.prems show ?thesis by simp
  qed
  from Cons.IH [OF rest] obtain evs where "perform (act x a) acts = run (act x a) evs" ..
  with e have "perform x (a # acts) = run x (e # evs)"
    by (simp add: perform_Cons run_Cons)
  then show ?case ..
qed

lemma ids_stored_first: "act mounted (IdsStored ids) = init ids"
  by (simp add: mounted_def init_def)

text \<open>
  C3, as amended. Whatever callbacks are called and whenever the ids are stored,
  \<open>currentIndex\<close> is \<open>BATCH_SIZE\<close> times the number of batches completed. When the list of
  ids is not empty and is stored before the first call, and every call runs the callback of
  the state it is made in, \<open>currentIndex\<close> never exceeds \<open>ceil (N / BATCH_SIZE) * BATCH_SIZE\<close>,
  \<open>N\<close> being the number of ids.
\<close>

theorem cursor_counts_completed_batches:
  "currentIndex (st (perform mounted acts)) = BATCH_SIZE * completed mounted acts \<and>
   (ids \<noteq> [] \<and> current_calls (act mounted (IdsStored ids)) later \<longrightarrow>
      currentIndex (st (perform mounted (IdsStored ids # later)))
        \<le> ceil_div (length ids) BATCH_SIZE * BATCH_SIZE)"
proof (intro conjI impI)
  show "currentIndex (st (perform mounted acts)) = BATCH_SIZE * completed mounted acts"
    using perform_currentIndex [of mounted acts] by (simp add: mounted_def)
next
  assume a: "ids \<noteq> [] \<and> current_calls (act mounted (IdsStored ids)) later"
  then have "current_calls (init ids) later"
    by (simp only: ids_stored_first)
  then obtain evs where evs: "perform (init ids) later = run (init ids) evs"
    using current_calls_run by blast
  from a have "shuffledPhotoIds (st (init ids)) \<noteq> []"
    "BATCH_SIZE dvd currentIndex (st (init ids))"
    "currentIndex (st (init ids)) \<le>
       ceil_div (length (shuffledPhotoIds (st (init ids)))) BATCH_SIZE * BATCH_SIZE"
    by (simp_all add: init_def)
  from cursor_cap_run [OF single_flight_init this, of evs]
  have "currentIndex (st (run (init ids) evs)) \<le> ceil_div (length ids) BATCH_SIZE * BATCH_SIZE"
    by (simp add: init_def)
  with evs show "currentIndex (st (perform mounted (IdsStored ids # later)))
        \<le> ceil_div (length ids) BATCH_SIZE * BATCH_SIZE"
    by (simp add: perform_Cons ids_stored_first del: act.simps)
qed

theorem cursor_counts_completed_batches_witness:
  "example_ids \<noteq> [] \<and>
   current_calls (act mounted (IdsStored example_ids))
     [Call first_callback, Settled broken_store, Call first_callback, Settled example_store,
      Call \<lparr>c_currentIndex = 12, c_shuffledPhotoIds = example_ids, c_allLoaded = False\<rparr>,
      Settled example_store,
      Call \<lparr>c_currentIndex = 24, c_shuffledPhotoIds = example_ids, c_allLoaded = False\<rparr>] \<and>
   completed mounted
     [IdsStored example_ids,
      Call first_callback, Settled broken_store, Call first_callback, Settled example_store,
      Call \<lparr>c_currentIndex = 12, c_shuffledPhotoIds = example_ids, c_allLoaded = False\<rparr>,
      Settled example_store,
      Call \<lparr>c_currentIndex = 24, c_shuffledPhotoIds = example_ids, c_allLoaded = False\<rparr>] = 2 \<and>
   currentIndex (st (perform mounted
     [IdsStored example_ids,
      Call first_callback, Settled broken_store, Call first_callback, Settled example_store,
      Call \<lparr>c_currentIndex = 12, c_shuffledPhotoIds = example_ids, c_allLoaded = False\<rparr>,
      Settled example_store,
      Call \<lparr>c_currentIndex = 24, c_shuffledPhotoIds = example_ids, c_allLoaded = False\<rparr>])) = 24 \<and>
   currentIndex (st (perform mounted
     [IdsStored example_ids,
      Call first_callback, Settled broken_store, Call first_callback, Settled example_store,
      Call \<lparr>c_currentIndex = 12, c_shuffledPhotoIds = example_ids, c_allLoaded = False\<rparr>,
      Settled example_store,
      Call \<lparr>c_currentIndex = 24, c_shuffledPhotoIds = example_ids, c_allLoaded = False\<rparr>]))
     \<le> ceil_div (length example_ids) BATCH_SIZE * BATCH_SIZE \<and>
   ceil_div (length example_ids) BATCH_SIZE * BATCH_SIZE = 24"
proof -
  let ?acts = "[Call first_callback, Settled broken_store, Call first_callback,
      Settled example_store,
      Call \<lparr>c_currentIndex = 12, c_shuffledPhotoIds = example_ids, c_allLoaded = False\<rparr>,
      Settled example_store,
      Call \<lparr>c_currentIndex = 24, c_shuffledPhotoIds = example_ids, c_allLoaded = False\<rparr>]"
  have n: "example_ids \<noteq> []"
    by (simp add: example_ids_def)
  have f: "current_calls (act mounted (IdsStored example_ids)) ?acts"
    by (simp add: eval_defs)
  have k: "completed mounted (IdsStored example_ids # ?acts) = 2"
    by (simp add: finishes_def eval_defs)
  have c: "ceil_div (length example_ids) BATCH_SIZE * BATCH_SIZE = 24"
    by (simp add: ceil_div_def example_ids_def BATCH_SIZE_def)
  note t = cursor_counts_completed_batches [of "IdsStored example_ids # ?acts" example_ids ?acts]
  from t have eq: "currentIndex (st (perform mounted (IdsStored example_ids # ?acts))) =
                   BATCH_SIZE * completed mounted (IdsStored example_ids # ?acts)"
    by (rule conjunct1)
  with k have v: "currentIndex (st (perform mounted (IdsStored example_ids # ?acts))) = 24"
    by (simp add: BATCH_SIZE_def)
  from t n f have cap: "currentIndex (st (perform mounted (IdsStored example_ids # ?acts)))
     \<le> ceil_div (length example_ids) BATCH_SIZE * BATCH_SIZE"
    by blast
  from n f k v cap c show ?thesis
    by (intro conjI)
qed

text \<open>
  C3 as stated bounds \<open>currentIndex\<close> for every list of ids and every sequence of calls.
  With fourteen ids the bound is \<open>24\<close>. A callback called again before the component has
  rendered reads its window again and adds \<open>12\<close> again: three such batches give \<open>36\<close>.
  Three scrolls before the ids are stored complete three empty batches and give \<open>36\<close> as
  well. With no ids at all the bound is \<open>0\<close> and one empty batch gives \<open>12\<close>.
\<close>

theorem cursor_cap_counterexample:
  "\<not> currentIndex (st (perform mounted
       [IdsStored example_ids, Call first_callback, Settled example_store,
        Call first_callback, Settled example_store,
        Call first_callback, Settled example_store]))
     \<le> ceil_div (length example_ids) BATCH_SIZE * BATCH_SIZE \<and>
   \<not> currentIndex (st (perform mounted
       [Call early_callback, Settled example_store, Call early_callback, Settled example_store,
        Call early_callback, Settled example_store, IdsStored example_ids]))
     \<le> ceil_div (length example_ids) BATCH_SIZE * BATCH_SIZE \<and>
   \<not> currentIndex (st (perform mounted
       [IdsStored [], Call early_callback, Settled example_store]))
     \<le> ceil_div (length ([] :: string list)) BATCH_SIZE * BATCH_SIZE"
proof (intro conjI)
  have c: "ceil_div (length example_ids) BATCH_SIZE * BATCH_SIZE = 24"
    by (simp add: ceil_div_def example_ids_def BATCH_SIZE_def)
  have "currentIndex (st (perform mounted
       [IdsStored example_ids, Call first_callback, Settled example_store,
        Call first_callback, Settled example_store,
        Call first_callback, Settled example_store])) = 36"
    by (simp add: eval_defs)
  with c show "\<not> currentIndex (st (perform mounted
       [IdsStored example_ids, Call first_callback, Settled example_store,
        Call first_callback, Settled example_store,
        Call first_callback, Settled example_store]))
     \<le> ceil_div (length example_ids) BATCH_SIZE * BATCH_SIZE"
    by simp
  have "currentIndex (st (perform mounted
       [Call early_callback, Settled example_store, Call early_callback, Settled example_store,
        Call early_callback, Settled example_store, IdsStored example_ids])) = 36"
    by (simp add: eval_defs)
  with c show "\<not> currentIndex (st (perform mounted
       [Call early_callback, Settled example_store, Call early_callback, Settled example_store,
        Call early_callback, Settled example_store, IdsStored example_ids]))
     \<le> ceil_div (length example_ids) BATCH_SIZE * BATCH_SIZE"
    by simp
  show "\<not> currentIndex (st (perform mounted
       [IdsStored [], Call early_callback, Settled example_store]))
     \<le> ceil_div (length ([] :: string list)) BATCH_SIZE * BATCH_SIZE"
    by (simp add: ceil_div_def eval_defs)
qed

subsection \<open>Uniqueness of the loaded ids\<close>











end
